theory Spec2Isabelle
  imports Main
begin

section \<open>Result parser (pkg/parser/parser.go)\<close>

subsection \<open>Errors and the callback\<close>

text \<open>
  A Go \<open>error\<close> value is modelled by its message. A run of the parser ends in one of
  three ways: it returns \<open>nil\<close>, it returns an error, or it panics with an index out of
  range (Go checks every string index at run time).
\<close>

type_synonym err = string

datatype fault = IndexOutOfRange | Failed err

text \<open>
  \<open>OnResultFN\<close>: the callback \<open>func(domain string, ip []string) error\<close>. Whatever the
  callback mutates is threaded through as a state of type \<open>'s\<close>.
\<close>

type_synonym 's OnResultFN = "string \<Rightarrow> string list \<Rightarrow> 's \<Rightarrow> err + 's"

definition call :: "'s OnResultFN \<Rightarrow> string \<Rightarrow> string list \<Rightarrow> 's \<Rightarrow> fault + 's" where
  "call onResult d ips st = (case onResult d ips st of Inl e \<Rightarrow> Inl (Failed e) | Inr st' \<Rightarrow> Inr st')"

text \<open>The callback that only records its arguments, in call order.\<close>

definition record_call :: "(string \<times> string list) list OnResultFN" where
  "record_call d ips calls = Inr (calls @ [(d, ips)])"

subsection \<open>String helpers of the Go standard library\<close>

text \<open>
  \<open>strings.Split(text, " ")\<close>: the pieces between single separators, in order. The
  piece being read is \<open>cur\<close>; a separator closes it. There is always at least one piece.
\<close>

fun split_from :: "char \<Rightarrow> string \<Rightarrow> string \<Rightarrow> string list" where
  "split_from c cur [] = [cur]"
| "split_from c cur (x # xs) =
     (if x = c then cur # split_from c [] xs else split_from c (cur @ [x]) xs)"

definition split_on :: "char \<Rightarrow> string \<Rightarrow> string list" where
  "split_on c xs = split_from c [] xs"

text \<open>\<open>strings.TrimSuffix(s, ".")\<close>: one trailing dot is removed when there is one.\<close>

definition trim_dot :: "string \<Rightarrow> string" where
  "trim_dot s = (if s \<noteq> [] \<and> last s = CHR ''.'' then butlast s else s)"

text \<open>
  \<open>text[i] == c\<close> with Go's bounds check: \<open>None\<close> is the run-time panic. \<open>&&\<close> evaluates
  its right operand only when the left one is true.
\<close>

definition byte_is :: "string \<Rightarrow> nat \<Rightarrow> char \<Rightarrow> bool option" where
  "byte_is text i c = (if i < length text then Some (text ! i = c) else None)"

definition and_also :: "bool option \<Rightarrow> bool option \<Rightarrow> bool option" where
  "and_also a b = (case a of None \<Rightarrow> None | Some t \<Rightarrow> if t then b else Some False)"

subsection \<open>parseRaw\<close>

record raw_state =
  answerStart :: bool
  cnameStart :: bool
  nsStart :: bool
  domain :: string
  ip :: "string list"

definition raw_init :: raw_state where
  "raw_init = \<lparr>answerStart = False, cnameStart = False, nsStart = False, domain = [], ip = []\<rparr>"

text \<open>The condition of line 97: the five indexed comparisons, left to right.\<close>

definition answer_header :: "string \<Rightarrow> bool option" where
  "answer_header text =
     and_also (byte_is text 0 CHR '';'')
       (and_also (byte_is text 1 CHR '';'')
         (and_also (byte_is text 2 CHR '' '')
           (and_also (byte_is text 3 CHR ''A'') (byte_is text 4 CHR ''N''))))"

text \<open>The \<open>switch parts[3]\<close> of lines 120 to 148, for a line of exactly five fields.\<close>

definition raw_record :: "string list \<Rightarrow> raw_state \<Rightarrow> raw_state" where
  "raw_record parts s =
     (if parts ! 3 = ''NS'' then s\<lparr>nsStart := True\<rparr>
      else if parts ! 3 = ''CNAME'' then
        (if \<not> cnameStart s
         then s\<lparr>nsStart := False, domain := trim_dot (parts ! 0), cnameStart := True\<rparr>
         else s)
      else if parts ! 3 = ''A'' then
        (if \<not> nsStart s
         then (if \<not> cnameStart s \<and> domain s = []
               then s\<lparr>domain := trim_dot (parts ! 0), ip := ip s @ [parts ! 4]\<rparr>
               else s\<lparr>ip := ip s @ [parts ! 4]\<rparr>)
         else s)
      else s)"

text \<open>Lines 109 to 149: what a line that is not a header does.\<close>

definition raw_answer :: "string \<Rightarrow> raw_state \<Rightarrow> raw_state" where
  "raw_answer text s =
     (if answerStart s then
        (let parts = split_on CHR '' '' text in
         if length parts \<noteq> 5 then s else raw_record parts s)
      else s)"

text \<open>One iteration of the \<open>for scanner.Scan()\<close> loop, lines 80 to 149.\<close>

definition raw_line :: "'s OnResultFN \<Rightarrow> string \<Rightarrow> raw_state \<times> 's \<Rightarrow> fault + raw_state \<times> 's" where
  "raw_line onResult text p =
     (case p of (s, st) \<Rightarrow>
      if text = [] then Inr (s, st)
      else if length text < 4 then Inr (s, st)
      else (case answer_header text of
              None \<Rightarrow> Inl IndexOutOfRange
            | Some hdr \<Rightarrow>
                if hdr then
                  (if domain s \<noteq> [] then
                     (case call onResult (domain s) (ip s) st of
                        Inl e \<Rightarrow> Inl e
                      | Inr st' \<Rightarrow>
                          Inr (s\<lparr>cnameStart := False, nsStart := False, domain := [], ip := [],
                                 answerStart := True\<rparr>, st'))
                   else Inr (s\<lparr>answerStart := True\<rparr>, st))
                else Inr (raw_answer text s, st)))"

fun raw_lines :: "'s OnResultFN \<Rightarrow> string list \<Rightarrow> raw_state \<times> 's \<Rightarrow> fault + raw_state \<times> 's" where
  "raw_lines onResult [] p = Inr p"
| "raw_lines onResult (text # rest) p =
     (case raw_line onResult text p of Inl e \<Rightarrow> Inl e | Inr p' \<Rightarrow> raw_lines onResult rest p')"

text \<open>
  \<open>parseRaw\<close>. The reader is seen through its scanner: \<open>lines\<close> are the tokens
  \<open>scanner.Text()\<close> yields, in order, and \<open>scanErr\<close> is what \<open>scanner.Err()\<close> returns
  once \<open>scanner.Scan()\<close> has returned false.
\<close>

definition parseRaw :: "string list \<Rightarrow> err option \<Rightarrow> 's OnResultFN \<Rightarrow> 's \<Rightarrow> fault + 's" where
  "parseRaw lines scanErr onResult st =
     (case raw_lines onResult lines (raw_init, st) of
        Inl e \<Rightarrow> Inl e
      | Inr (s, st') \<Rightarrow>
          (case scanErr of
             Some e \<Rightarrow> Inl (Failed e)
           | None \<Rightarrow> if domain s \<noteq> [] then call onResult (domain s) (ip s) st' else Inr st'))"


subsection \<open>Vocabulary for raw-format streams\<close>


text \<open>A line that splits into exactly five fields and whose fourth field is \<open>ty\<close>.\<close>

definition is_rr :: "string \<Rightarrow> string \<Rightarrow> bool" where
  "is_rr ty l = (length (split_on CHR '' '' l) = 5 \<and> split_on CHR '' '' l ! 3 = ty)"

text \<open>
  A line that stays inside the current record: the loop either skips it for its length
  or finds that it is not an answer-section header.
\<close>

definition inside_record :: "string \<Rightarrow> bool" where
  "inside_record l = (length l < 4 \<or> answer_header l = Some False)"

subsection \<open>parseNDJSON\<close>

text \<open>
  \<open>DNSRecord\<close> and \<open>DNSData\<close>. The two anonymous structs of \<open>DNSData\<close> have the same
  fields; their selectors carry the prefix \<open>ans\<close> to keep them apart from those of
  \<open>DNSRecord\<close>.
\<close>

record dns_answer =
  ansTTL :: int
  ansType :: string
  ansName :: string
  ansData :: string

record DNSData =
  Answers :: "dns_answer list"
  Authorities :: "dns_answer list"

record DNSRecord =
  Name :: string
  Type :: string
  Class :: string
  Status :: string
  Data :: DNSData
  Resolver :: string

text \<open>The loop of lines 185 to 189 over \<open>record.Data.Answers\<close>, appending to \<open>ips\<close>.\<close>

fun answer_ips :: "dns_answer list \<Rightarrow> string list \<Rightarrow> string list" where
  "answer_ips [] ips = ips"
| "answer_ips (answer # rest) ips =
     answer_ips rest (if ansType answer = ''A'' then ips @ [ansData answer] else ips)"

text \<open>
  One iteration of the loop of \<open>parseNDJSON\<close>. \<open>json.Unmarshal\<close> belongs to the standard
  library and is a parameter: it gives the decoded record or the decoding error.
\<close>

definition ndjson_line ::
  "(string \<Rightarrow> err + DNSRecord) \<Rightarrow> 's OnResultFN \<Rightarrow> string \<Rightarrow> 's \<Rightarrow> fault + 's" where
  "ndjson_line unmarshal onResult text st =
     (case unmarshal text of
        Inl e \<Rightarrow> Inl (Failed e)
      | Inr dnsrec \<Rightarrow>
          if Type dnsrec = ''A'' \<and> Status dnsrec = ''NOERROR'' then
            (let host = trim_dot (Name dnsrec);
                 ips = answer_ips (Answers (Data dnsrec)) []
             in if length ips > 0 then call onResult host ips st else Inr st)
          else Inr st)"

fun ndjson_lines ::
  "(string \<Rightarrow> err + DNSRecord) \<Rightarrow> 's OnResultFN \<Rightarrow> string list \<Rightarrow> 's \<Rightarrow> fault + 's" where
  "ndjson_lines unmarshal onResult [] st = Inr st"
| "ndjson_lines unmarshal onResult (text # rest) st =
     (case ndjson_line unmarshal onResult text st of
        Inl e \<Rightarrow> Inl e
      | Inr st' \<Rightarrow> ndjson_lines unmarshal onResult rest st')"

definition parseNDJSON ::
  "(string \<Rightarrow> err + DNSRecord) \<Rightarrow> string list \<Rightarrow> err option \<Rightarrow> 's OnResultFN \<Rightarrow> 's \<Rightarrow> fault + 's"
  where
  "parseNDJSON unmarshal lines scanErr onResult st =
     (case ndjson_lines unmarshal onResult lines st of
        Inl e \<Rightarrow> Inl e
      | Inr st' \<Rightarrow> (case scanErr of Some e \<Rightarrow> Inl (Failed e) | None \<Rightarrow> Inr st'))"

text \<open>\<open>Parse\<close>: the option chooses the format.\<close>

definition Parse ::
  "(string \<Rightarrow> err + DNSRecord) \<Rightarrow> string list \<Rightarrow> err option \<Rightarrow> 's OnResultFN \<Rightarrow> bool \<Rightarrow> 's
     \<Rightarrow> fault + 's" where
  "Parse unmarshal lines scanErr callback ndjson st =
     (if ndjson then parseNDJSON unmarshal lines scanErr callback st
      else parseRaw lines scanErr callback st)"

section \<open>Record store (pkg/store)\<close>

text \<open>
  Modelled from the spec: the package \<open>pkg/store\<close> is not among the sources; only its
  callers are. A store maps a key (an address, or \<open>CNAME:\<close> followed by a hostname) to
  the hostnames inserted under it, in insertion order, and the number of insertions.
  \<open>create\<close> fails on a key that exists; \<open>append\<close> fails on a key that does not and
  otherwise appends the hostname and adds one to the count; \<open>delete\<close> removes the key.
\<close>

record IPMeta =
  Hostnames :: "string list"
  Counter :: int

type_synonym Store = "string \<rightharpoonup> IPMeta"

definition store_Exists :: "Store \<Rightarrow> string \<Rightarrow> bool" where
  "store_Exists st key = (st key \<noteq> None)"

definition store_New :: "Store \<Rightarrow> string \<Rightarrow> string \<Rightarrow> err + Store" where
  "store_New st key hostname =
     (if st key \<noteq> None then Inl ''key exists''
      else Inr (st(key \<mapsto> \<lparr>Hostnames = [hostname], Counter = 1\<rparr>)))"

definition store_Update :: "Store \<Rightarrow> string \<Rightarrow> string \<Rightarrow> err + Store" where
  "store_Update st key hostname =
     (case st key of
        None \<Rightarrow> Inl ''key not found''
      | Some m \<Rightarrow>
          Inr (st(key \<mapsto> \<lparr>Hostnames = Hostnames m @ [hostname], Counter = Counter m + 1\<rparr>)))"

definition store_Delete :: "Store \<Rightarrow> string \<Rightarrow> err + Store" where
  "store_Delete st key = Inr (st(key := None))"

section \<open>Ingestion (pkg/massdns/process.go, parseMassDNSOutputFile)\<close>

text \<open>The loop of lines 149 to 160 over the addresses of one event.\<close>

fun ingest_ips :: "string \<Rightarrow> string list \<Rightarrow> Store \<Rightarrow> err + Store" where
  "ingest_ips host [] st = Inr st"
| "ingest_ips host (key # keys) st =
     (if \<not> store_Exists st key then
        (case store_New st key host of
           Inl e \<Rightarrow> Inl (''could not create new record: '' @ e)
         | Inr st' \<Rightarrow> ingest_ips host keys st')
      else
        (case store_Update st key host of
           Inl e \<Rightarrow> Inl (''could not update record: '' @ e)
         | Inr st' \<Rightarrow> ingest_ips host keys st'))"

text \<open>The callback that \<open>parseMassDNSOutputFile\<close> hands to the parser, lines 147 to 176.\<close>

definition ingest :: "Store OnResultFN" where
  "ingest host ips st =
     (if length ips > 0 then ingest_ips host ips st
      else
        (let specialIP = ''CNAME:'' @ host in
         if \<not> store_Exists st specialIP then
           (case store_New st specialIP host of
              Inl e \<Rightarrow> Inl (''could not create new CNAME record: '' @ e)
            | Inr st' \<Rightarrow> Inr st')
         else
           (case store_Update st specialIP host of
              Inl e \<Rightarrow> Inl (''could not update CNAME record: '' @ e)
            | Inr st' \<Rightarrow> Inr st')))"

text \<open>
  \<open>parseMassDNSOutputFile\<close>. \<open>opened\<close> is what opening and scanning the file gives: the
  error of \<open>os.Open\<close>, or the lines and the scanner's final error. A panic of the parser
  is not an error value and passes through unwrapped.
\<close>

definition wrap :: "string \<Rightarrow> fault \<Rightarrow> fault" where
  "wrap msg f = (case f of IndexOutOfRange \<Rightarrow> IndexOutOfRange | Failed e \<Rightarrow> Failed (msg @ e))"

definition parseMassDNSOutputFile ::
  "(string \<Rightarrow> err + DNSRecord) \<Rightarrow> bool \<Rightarrow> err + string list \<times> err option \<Rightarrow> Store
     \<Rightarrow> fault + Store" where
  "parseMassDNSOutputFile unmarshal NDJSON opened st =
     (case (case opened of
              Inl e \<Rightarrow> Inl (Failed e)
            | Inr (lines, scanErr) \<Rightarrow> Parse unmarshal lines scanErr ingest NDJSON st) of
        Inl f \<Rightarrow> Inl (wrap ''could not parse massdns output: '' f)
      | Inr st' \<Rightarrow> Inr st')"

text \<open>
  What one event leaves in the store when nothing fails: under each key, the hostname is
  the first entry of a new bucket, or one more entry of the bucket that is there.
\<close>

definition create_or_append :: "string \<Rightarrow> Store \<Rightarrow> string \<Rightarrow> Store" where
  "create_or_append hostname st key =
     (case st key of
        None \<Rightarrow> st(key \<mapsto> \<lparr>Hostnames = [hostname], Counter = 1\<rparr>)
      | Some m \<Rightarrow> st(key \<mapsto> \<lparr>Hostnames = Hostnames m @ [hostname], Counter = Counter m + 1\<rparr>))"

text \<open>Three decoded lines, for evaluating the structured parser on a concrete stream.\<close>

definition sample_records :: "DNSRecord list" where
  "sample_records =
     [\<lparr>Name = ''www.example.com.'', Type = ''A'', Class = ''IN'', Status = ''NOERROR'',
       Data = \<lparr>Answers =
                 [\<lparr>ansTTL = 300, ansType = ''CNAME'', ansName = ''www.example.com.'',
                   ansData = ''edge.example.net.''\<rparr>,
                  \<lparr>ansTTL = 60, ansType = ''A'', ansName = ''edge.example.net.'',
                   ansData = ''10.0.0.1''\<rparr>,
                  \<lparr>ansTTL = 60, ansType = ''A'', ansName = ''edge.example.net.'',
                   ansData = ''10.0.0.2''\<rparr>],
               Authorities = []\<rparr>,
       Resolver = ''192.0.2.53:53''\<rparr>,
      \<lparr>Name = ''gone.example.com.'', Type = ''A'', Class = ''IN'', Status = ''NXDOMAIN'',
       Data = \<lparr>Answers = [], Authorities = []\<rparr>, Resolver = ''192.0.2.53:53''\<rparr>,
      \<lparr>Name = ''alias.example.com.'', Type = ''CNAME'', Class = ''IN'', Status = ''NOERROR'',
       Data = \<lparr>Answers =
                 [\<lparr>ansTTL = 60, ansType = ''A'', ansName = ''alias.example.com.'',
                   ansData = ''10.0.0.3''\<rparr>],
               Authorities = []\<rparr>,
       Resolver = ''192.0.2.53:53''\<rparr>]"

definition sample_unmarshal :: "string \<Rightarrow> err + DNSRecord" where
  "sample_unmarshal text =
     (if text = ''line 0'' then Inr (sample_records ! 0)
      else if text = ''line 1'' then Inr (sample_records ! 1)
      else if text = ''line 2'' then Inr (sample_records ! 2)
      else Inl ''invalid character'')"

section \<open>Wildcard filter (pkg/massdns/process.go, filterWildcards)\<close>

subsection \<open>The wildcard store and the worker pool\<close>

text \<open>
  Modelled from the spec: the wildcard store (\<open>instance.wildcardStore\<close>, of the package
  \<open>pkg/wildcards\<close>) is not among the sources. It is a set of keys that only grows:
  \<open>Has\<close> tests membership, \<open>Set\<close> inserts, \<open>Iterate\<close> visits every key. The keys are
  kept in insertion order; no result below depends on that order.
\<close>

type_synonym WildcardStore = "string list"

definition wildcard_Has :: "WildcardStore \<Rightarrow> string \<Rightarrow> bool" where
  "wildcard_Has ws key = (key \<in> set ws)"

definition wildcard_Set :: "WildcardStore \<Rightarrow> string \<Rightarrow> WildcardStore" where
  "wildcard_Set ws key = (if key \<in> set ws then ws else ws @ [key])"

text \<open>
  \<open>sizedwaitgroup.New(limit)\<close> of the library: a limit that is not positive stands for
  the largest 32-bit integer.
\<close>

definition pool_size :: "int \<Rightarrow> nat" where
  "pool_size limit = (if limit \<le> 0 then 2147483647 else nat limit)"

subsection \<open>Goroutines and the scheduler\<close>

text \<open>
  The iteration of line 211 runs on one thread and starts a goroutine for every hostname
  of a bucket it decides to probe; the goroutines run beside it and beside each other.
  A run of \<open>filterWildcards\<close> is therefore a sequence of steps, each taken by the
  iteration or by one goroutine, in an order the scheduler chooses. The steps are the
  accesses to what is shared: the wildcard store and the cancellation of a bucket's
  context.

  A goroutine (lines 224 to 256) is first \<open>Spawned\<close>. Its first step is the \<open>select\<close> on
  its context and, unless the context is cancelled, the call of \<open>LookupHost\<close>, whose
  answer (the wildcard flag and the observed addresses, in the order the \<open>range\<close> over
  them will take) comes from outside; the goroutine is then \<open>Setting\<close> the addresses one
  step at a time, marks its own bucket when the flag is set, is \<open>Cancelling\<close>, and ends.
\<close>

datatype stage = Spawned | Setting bool "string list" | Cancelling

record goroutine =
  gIP :: string
  gHostname :: string
  gStage :: stage

record filter_state =
  todo :: "(string \<times> IPMeta) list"
  current :: "(string \<times> string list) option"
  running :: "goroutine list"
  cancelled :: "string set"
  wildcardStore :: WildcardStore
  submitted :: "(string \<times> string) list"
  probed :: "(string \<times> string \<times> bool \<times> string list) list"

text \<open>
  \<open>todo\<close> holds the entries \<open>st.Iterate\<close> has still to visit, \<open>current\<close> the bucket whose
  loop over the hostnames (line 222) is under way with the hostnames still to come,
  \<open>running\<close> the goroutines that have not reached \<open>wildcardWg.Done\<close>, and \<open>cancelled\<close> the
  buckets whose context has been cancelled. \<open>submitted\<close> and \<open>probed\<close> record what
  happened: the goroutines started, as (bucket, hostname), and the calls of
  \<open>LookupHost\<close>, as (bucket, hostname, flag, addresses).
\<close>

datatype action = Iterate | Spawn | Step nat "bool \<times> string list"

definition loop_over :: "string \<Rightarrow> string list \<Rightarrow> (string \<times> string list) option" where
  "loop_over key hostnames = (if hostnames = [] then None else Some (key, hostnames))"

text \<open>
  Lines 211 to 222: the iteration enters its callback for the next entry. A key that the
  wildcard store holds is left alone; otherwise the bucket is probed when its counter is
  at least 5 or the strict flag is set.
\<close>

definition visit :: "bool \<Rightarrow> filter_state \<Rightarrow> filter_state option" where
  "visit StrictWildcard s =
     (case (current s, todo s) of
        (None, (key, m) # rest) \<Rightarrow>
          if wildcard_Has (wildcardStore s) key then Some (s\<lparr>todo := rest\<rparr>)
          else if Counter m \<ge> 5 \<or> StrictWildcard
               then Some (s\<lparr>todo := rest, current := loop_over key (Hostnames m)\<rparr>)
               else Some (s\<lparr>todo := rest\<rparr>)
      | _ \<Rightarrow> None)"

text \<open>
  Lines 223 and 224: \<open>wildcardWg.Add()\<close> returns once fewer goroutines than the pool
  holds are running, and the goroutine for the next hostname starts.
\<close>

definition spawn :: "nat \<Rightarrow> filter_state \<Rightarrow> filter_state option" where
  "spawn slots s =
     (case current s of
        Some (key, hostname # rest) \<Rightarrow>
          if length (running s) < slots
          then Some (s\<lparr>current := loop_over key rest,
                       running := running s @ [\<lparr>gIP = key, gHostname = hostname, gStage = Spawned\<rparr>],
                       submitted := submitted s @ [(key, hostname)]\<rparr>)
          else None
      | _ \<Rightarrow> None)"

definition without :: "nat \<Rightarrow> 'a list \<Rightarrow> 'a list" where
  "without i xs = take i xs @ drop (Suc i) xs"

text \<open>Lines 225 to 255: the next step of the goroutine at position \<open>i\<close>.\<close>

definition advance :: "nat \<Rightarrow> bool \<times> string list \<Rightarrow> filter_state \<Rightarrow> filter_state option" where
  "advance i answer s =
     (if i < length (running s) then
        (let g = running s ! i in
         case gStage g of
           Spawned \<Rightarrow>
             if gIP g \<in> cancelled s then Some (s\<lparr>running := without i (running s)\<rparr>)
             else Some (s\<lparr>running := (running s)[i := g\<lparr>gStage := Setting (fst answer) (snd answer)\<rparr>],
                          probed := probed s @ [(gIP g, gHostname g, fst answer, snd answer)]\<rparr>)
         | Setting isWildcard (key # rest) \<Rightarrow>
             Some (s\<lparr>wildcardStore := wildcard_Set (wildcardStore s) key,
                      running := (running s)[i := g\<lparr>gStage := Setting isWildcard rest\<rparr>]\<rparr>)
         | Setting isWildcard [] \<Rightarrow>
             if isWildcard
             then Some (s\<lparr>wildcardStore := wildcard_Set (wildcardStore s) (gIP g),
                          running := (running s)[i := g\<lparr>gStage := Cancelling\<rparr>]\<rparr>)
             else Some (s\<lparr>running := without i (running s)\<rparr>)
         | Cancelling \<Rightarrow>
             Some (s\<lparr>cancelled := insert (gIP g) (cancelled s),
                      running := without i (running s)\<rparr>))
      else None)"

definition filter_step :: "bool \<Rightarrow> nat \<Rightarrow> action \<Rightarrow> filter_state \<Rightarrow> filter_state option" where
  "filter_step StrictWildcard slots a s =
     (case a of
        Iterate \<Rightarrow> visit StrictWildcard s
      | Spawn \<Rightarrow> spawn slots s
      | Step i answer \<Rightarrow> advance i answer s)"

text \<open>A schedule is a list of actions; an action that cannot be taken makes it invalid.\<close>

fun filter_run :: "bool \<Rightarrow> nat \<Rightarrow> action list \<Rightarrow> filter_state \<Rightarrow> filter_state option" where
  "filter_run StrictWildcard slots [] s = Some s"
| "filter_run StrictWildcard slots (a # as) s =
     (case filter_step StrictWildcard slots a s of
        None \<Rightarrow> None
      | Some s' \<Rightarrow> filter_run StrictWildcard slots as s')"

text \<open>
  \<open>wildcardWg.Wait()\<close> of line 261 returns when the iteration is over and no goroutine
  is left.
\<close>

definition joined :: "filter_state \<Rightarrow> bool" where
  "joined s = (todo s = [] \<and> current s = None \<and> running s = [])"

text \<open>
  \<open>st.Iterate\<close> visits every entry once, in an order of its own: \<open>order\<close> lists the keys
  in that order.
\<close>

definition store_entries :: "Store \<Rightarrow> string list \<Rightarrow> (string \<times> IPMeta) list" where
  "store_entries st order = List.map_filter (\<lambda>key. map_option (Pair key) (st key)) order"

definition iteration_order :: "Store \<Rightarrow> string list \<Rightarrow> bool" where
  "iteration_order st order = (distinct order \<and> set order = dom st)"

definition filter_init :: "(string \<times> IPMeta) list \<Rightarrow> WildcardStore \<Rightarrow> filter_state" where
  "filter_init entries ws =
     \<lparr>todo = entries, current = None, running = [], cancelled = {}, wildcardStore = ws,
      submitted = [], probed = []\<rparr>"

text \<open>Lines 268 to 270: every key of the wildcard store is deleted from the store.\<close>

fun drop_wildcards :: "WildcardStore \<Rightarrow> Store \<Rightarrow> err + Store" where
  "drop_wildcards [] st = Inr st"
| "drop_wildcards (k # ks) st =
     (case store_Delete st k of Inl e \<Rightarrow> Inl e | Inr st' \<Rightarrow> drop_wildcards ks st')"

text \<open>
  \<open>filterWildcards\<close> under a schedule. The result is \<open>None\<close> when the schedule is not one
  of a complete run: an action in it cannot be taken, or it stops before the join.
  The cancellations of lines 263 to 265 release contexts no goroutine is left to read.
\<close>

definition filterWildcards ::
  "bool \<Rightarrow> int \<Rightarrow> string list \<Rightarrow> action list \<Rightarrow> Store \<times> WildcardStore
     \<Rightarrow> (err + Store \<times> filter_state) option" where
  "filterWildcards StrictWildcard WildcardsThreads order schedule p =
     (case p of (st, ws) \<Rightarrow>
        (case filter_run StrictWildcard (pool_size WildcardsThreads) schedule
                (filter_init (store_entries st order) ws) of
           None \<Rightarrow> None
         | Some s \<Rightarrow>
             if joined s then
               Some (case drop_wildcards (wildcardStore s) st of
                       Inl e \<Rightarrow> Inl e
                     | Inr st' \<Rightarrow> Inr (st', s))
             else None))"

text \<open>The hostnames of one bucket among the goroutines started, in starting order.\<close>

definition submitted_for :: "string \<Rightarrow> filter_state \<Rightarrow> string list" where
  "submitted_for key s = map snd (filter (\<lambda>p. fst p = key) (submitted s))"

subsection \<open>Invariants of a schedule\<close>




text \<open>
  The rule of line 221: a bucket is probe-eligible when its counter is at least 5 or the
  strict flag is set.
\<close>

definition eligible :: "bool \<Rightarrow> IPMeta \<Rightarrow> bool" where
  "eligible StrictWildcard m = (Counter m \<ge> 5 \<or> StrictWildcard)"

text \<open>
  A bucket is waiting for the iteration, or the loop over its hostnames is under way, or
  the iteration has left it behind: then either all its hostnames were handed to
  goroutines, or none was, its key being in the wildcard store or the bucket not eligible.
\<close>

definition bucket_waiting :: "filter_state \<Rightarrow> string \<Rightarrow> bool" where
  "bucket_waiting s key =
     (key \<in> fst ` set (todo s) \<and> submitted_for key s = [] \<and> (\<forall>hs. current s \<noteq> Some (key, hs)))"

definition bucket_looping :: "bool \<Rightarrow> filter_state \<Rightarrow> string \<Rightarrow> IPMeta \<Rightarrow> bool" where
  "bucket_looping strict s key m =
     (key \<notin> fst ` set (todo s) \<and> eligible strict m
      \<and> (\<exists>hs. current s = Some (key, hs) \<and> submitted_for key s @ hs = Hostnames m))"

definition bucket_visited :: "bool \<Rightarrow> filter_state \<Rightarrow> string \<Rightarrow> IPMeta \<Rightarrow> bool" where
  "bucket_visited strict s key m =
     (key \<notin> fst ` set (todo s) \<and> (\<forall>hs. current s \<noteq> Some (key, hs))
      \<and> ((submitted_for key s = Hostnames m \<and> eligible strict m)
          \<or> (submitted_for key s = [] \<and> (key \<in> set (wildcardStore s) \<or> \<not> eligible strict m))))"

definition submit_inv :: "bool \<Rightarrow> (string \<times> IPMeta) list \<Rightarrow> filter_state \<Rightarrow> bool" where
  "submit_inv strict entries s =
     (distinct (map fst (todo s)) \<and> set (todo s) \<subseteq> set entries
      \<and> (\<forall>key m. (key, m) \<in> set entries \<longrightarrow>
            bucket_waiting s key \<or> bucket_looping strict s key m \<or> bucket_visited strict s key m))"

subsection \<open>Two concrete runs\<close>

text \<open>
  A store with a crowded bucket and a small one. In the run \<open>wildcard_schedule\<close> the
  first probe of the crowded bucket reports a wildcard; its siblings start after the
  cancellation and skip their probes.
\<close>

definition sample_store :: Store where
  "sample_store =
     [''10.0.0.5'' \<mapsto> \<lparr>Hostnames = [''w1'', ''w2'', ''w3'', ''w4'', ''w5''], Counter = 5\<rparr>,
      ''10.0.0.9'' \<mapsto> \<lparr>Hostnames = [''app''], Counter = 1\<rparr>]"



text \<open>
  In the run \<open>quiet_schedule\<close> no probe reports anything; the small bucket is not
  eligible and is passed over.
\<close>

definition quiet_schedule :: "action list" where
  "quiet_schedule =
     [Iterate,
      Spawn, Spawn, Step 1 (False, []), Step 0 (False, []), Step 0 (False, []),
      Step 0 (False, []),
      Spawn, Step 0 (False, []), Step 0 (False, []),
      Spawn, Spawn, Step 0 (False, []), Step 1 (False, []), Step 0 (False, []),
      Step 0 (False, []),
      Iterate]"

definition quiet_outcome :: "Store \<times> filter_state" where
  "quiet_outcome =
     (sample_store,
      \<lparr>todo = [], current = None, running = [], cancelled = {},
       wildcardStore = [],
       submitted = [(''10.0.0.5'', ''w1''), (''10.0.0.5'', ''w2''), (''10.0.0.5'', ''w3''),
                    (''10.0.0.5'', ''w4''), (''10.0.0.5'', ''w5'')],
       probed = [(''10.0.0.5'', ''w2'', False, []), (''10.0.0.5'', ''w1'', False, []),
                 (''10.0.0.5'', ''w3'', False, []), (''10.0.0.5'', ''w4'', False, []),
                 (''10.0.0.5'', ''w5'', False, [])]\<rparr>)"

section \<open>Output (pkg/massdns/process.go, writeOutput)\<close>

text \<open>
  The options \<open>Run\<close> and its phases read, and what the run meets outside the program:
  the file system, the external resolver, the JSON encoder and the trusted resolvers.
  Of the answer of a trusted resolver only the fields \<open>A\<close> and \<open>CNAME\<close> are read.
\<close>

record Options =
  InputFile :: string
  MassdnsRaw :: string
  TempDir :: string
  Domains :: "string list"
  NDJSON :: bool
  StrictWildcard :: bool
  WildcardsThreads :: int
  OutputFile :: string
  Json :: bool
  TrustedResolvers :: string
  OnResult :: bool

record dns_response =
  respA :: "string list"
  respCNAME :: "string list"

record environment =
  isEmptyFile :: "string \<Rightarrow> err + bool"
  storeNew :: "err option"
  createTemp :: "string \<Rightarrow> err option"
  cmdRun :: "err option"
  getFiles :: "err + string list"
  isStdout :: "string \<Rightarrow> bool"
  openFile :: "string \<Rightarrow> err + string list \<times> err option"
  jsonUnmarshal :: "string \<Rightarrow> err + DNSRecord"
  storeOrder :: "Store \<Rightarrow> string list"
  createOutput :: "err option"
  loadResolvers :: "err + string list"
  dnsxNew :: "string list \<Rightarrow> err + (string \<Rightarrow> err + dns_response)"
  jsonMarshal :: "string \<Rightarrow> err + string"

text \<open>
  What the goroutines of \<open>writeOutput\<close> share: the buffered writer of the output file,
  the console, the tally, the log, and the answers handed to the result hook.
  \<open>emitted\<close> keeps the hostnames written, for the record.
\<close>

record sinks =
  outfile :: "string list"
  console :: "string list"
  resolvedCount :: int
  info :: "string list"
  hooked :: "dns_response list"
  emitted :: "string list"

text \<open>
  The body of a goroutine, lines 321 to 357, for one hostname. It is taken as one step:
  the source puts no lock around its writes, and what writes that overlap do to the
  buffered writer and to the tally lies outside this model. \<open>resolver\<close> is the trusted
  resolver when one is configured.
\<close>

definition emit ::
  "Options \<Rightarrow> environment \<Rightarrow> (string \<Rightarrow> err + dns_response) option \<Rightarrow> string \<Rightarrow> sinks \<Rightarrow> sinks"
  where
  "emit opts env resolver hostname sh =
     (let write = (\<lambda>sh.
            let data = (if Json opts
                        then (case jsonMarshal env hostname of Inl e \<Rightarrow> [] | Inr j \<Rightarrow> j) @ [CHR 0x0A]
                        else hostname @ [CHR 0x0A])
            in sh\<lparr>outfile := (if OutputFile opts \<noteq> [] then outfile sh @ [data] else outfile sh),
                   console := console sh @ [data],
                   resolvedCount := resolvedCount sh + 1,
                   emitted := emitted sh @ [hostname]\<rparr>)
      in case resolver of
           None \<Rightarrow> write sh
         | Some query \<Rightarrow>
             (case query hostname of
                Inl e \<Rightarrow>
                  sh\<lparr>info := info sh @ [''not resolved with trusted resolver - skipping: '' @ hostname]\<rparr>
              | Inr resp \<Rightarrow>
                  if length (respA resp) = 0 \<and> length (respCNAME resp) = 0
                  then sh\<lparr>info := info sh @ [''not resolved with trusted resolver - skipping: '' @ hostname]\<rparr>
                  else write (sh\<lparr>info := info sh @ [''resolved with trusted resolver: '' @ hostname],
                                   hooked := (if OnResult opts then hooked sh @ [resp] else hooked sh)\<rparr>)))"

text \<open>
  The iteration of line 311 and its goroutines, scheduled as in the wildcard filter.
  \<open>walk\<close> holds the hostnames the two nested loops have still to reach, \<open>uniqueMap\<close>
  those already taken, \<open>emitting\<close> the goroutines started and not yet run.
\<close>

record output_state =
  walk :: "string list"
  uniqueMap :: "string set"
  emitting :: "string list"
  shared :: sinks

datatype output_action = Walk | Emit nat

definition output_step ::
  "Options \<Rightarrow> environment \<Rightarrow> (string \<Rightarrow> err + dns_response) option \<Rightarrow> nat \<Rightarrow> output_action
     \<Rightarrow> output_state \<Rightarrow> output_state option" where
  "output_step opts env resolver slots a s =
     (case a of
        Walk \<Rightarrow>
          (case walk s of
             [] \<Rightarrow> None
           | hostname # rest \<Rightarrow>
               if hostname \<in> uniqueMap s then Some (s\<lparr>walk := rest\<rparr>)
               else if length (emitting s) < slots
                    then Some (s\<lparr>walk := rest, uniqueMap := insert hostname (uniqueMap s),
                                 emitting := emitting s @ [hostname]\<rparr>)
                    else None)
      | Emit i \<Rightarrow>
          if i < length (emitting s)
          then Some (s\<lparr>emitting := without i (emitting s),
                       shared := emit opts env resolver (emitting s ! i) (shared s)\<rparr>)
          else None)"

fun output_run ::
  "Options \<Rightarrow> environment \<Rightarrow> (string \<Rightarrow> err + dns_response) option \<Rightarrow> nat \<Rightarrow> output_action list
     \<Rightarrow> output_state \<Rightarrow> output_state option" where
  "output_run opts env resolver slots [] s = Some s"
| "output_run opts env resolver slots (a # as) s =
     (case output_step opts env resolver slots a s of
        None \<Rightarrow> None
      | Some s' \<Rightarrow> output_run opts env resolver slots as s')"

definition output_init :: "Store \<Rightarrow> string list \<Rightarrow> output_state" where
  "output_init st order =
     \<lparr>walk = concat (map (\<lambda>p. Hostnames (snd p)) (store_entries st order)),
      uniqueMap = {}, emitting = [],
      shared = \<lparr>outfile = [], console = [], resolvedCount = 0, info = [], hooked = [], emitted = []\<rparr>\<rparr>"

text \<open>Lines 293 to 307: the trusted resolver, when the option names a file of resolvers.\<close>

definition trusted_resolver ::
  "Options \<Rightarrow> environment \<Rightarrow> err + (string \<Rightarrow> err + dns_response) option" where
  "trusted_resolver opts env =
     (if length (TrustedResolvers opts) > 0 then
        (case loadResolvers env of
           Inl e \<Rightarrow> Inl (''could not load trusted resolvers: '' @ e)
         | Inr resolvers \<Rightarrow>
             (case dnsxNew env resolvers of
                Inl e \<Rightarrow> Inl (''could not create dns resolver: '' @ e)
              | Inr query \<Rightarrow> Inr (Some query)))
      else Inr None)"

text \<open>
  \<open>writeOutput\<close> under a schedule; \<open>None\<close> when the schedule is not one of a complete
  run. The result is the error returned or the state of the sinks after \<open>swg.Wait()\<close>.
\<close>

definition writeOutput ::
  "Options \<Rightarrow> environment \<Rightarrow> output_action list \<Rightarrow> Store \<Rightarrow> (err + sinks) option" where
  "writeOutput opts env schedule st =
     (case (if OutputFile opts \<noteq> [] then createOutput env else None) of
        Some e \<Rightarrow> Some (Inl (''could not create massdns output file: '' @ e))
      | None \<Rightarrow>
          (case trusted_resolver opts env of
             Inl e \<Rightarrow> Some (Inl e)
           | Inr resolver \<Rightarrow>
               (case output_run opts env resolver (pool_size (WildcardsThreads opts)) schedule
                       (output_init st (storeOrder env st)) of
                  None \<Rightarrow> None
                | Some s \<Rightarrow>
                    if walk s = [] \<and> emitting s = [] then Some (Inr (shared s)) else None)))"




section \<open>The run (pkg/massdns/process.go, Run)\<close>

text \<open>
  \<open>RunWithContext\<close>: the two temporary files and the external resolver. Only its error
  is read by \<open>Run\<close>, the rest goes to the log.
\<close>

definition RunWithContext :: "environment \<Rightarrow> err option" where
  "RunWithContext env =
     (case createTemp env ''massdns-stdout-'' of
        Some e \<Rightarrow> Some (''could not create temp file for massdns stdout: '' @ e)
      | None \<Rightarrow>
          (case createTemp env ''massdns-stderr-'' of
             Some e \<Rightarrow> Some (''could not create temp file for massdns stdout: '' @ e)
           | None \<Rightarrow> cmdRun env))"

text \<open>\<open>parseMassDNSOutputDir\<close>: every file of the directory whose name holds \<open>stdout\<close>.\<close>

fun parse_files ::
  "Options \<Rightarrow> environment \<Rightarrow> string list \<Rightarrow> Store \<Rightarrow> fault + Store" where
  "parse_files opts env [] st = Inr st"
| "parse_files opts env (tmpFile # rest) st =
     (if \<not> isStdout env tmpFile then parse_files opts env rest st
      else
        (case parseMassDNSOutputFile (jsonUnmarshal env) (NDJSON opts) (openFile env tmpFile) st of
           Inl f \<Rightarrow> Inl (wrap ''could not parse massdns output: '' f)
         | Inr st' \<Rightarrow> parse_files opts env rest st'))"

definition parseMassDNSOutputDir :: "Options \<Rightarrow> environment \<Rightarrow> Store \<Rightarrow> fault + Store" where
  "parseMassDNSOutputDir opts env st =
     (case getFiles env of
        Inl e \<Rightarrow> Inl (Failed (''could not open massdns output directory: '' @ e))
      | Inr tmpFiles \<Rightarrow> parse_files opts env tmpFiles st)"

text \<open>Lines 55 to 117 of \<open>Run\<close>: up to the store filled by the parser.\<close>

definition ingestion :: "Options \<Rightarrow> environment \<Rightarrow> fault + Store" where
  "ingestion opts env =
     (let inputFile = (if MassdnsRaw opts \<noteq> [] then MassdnsRaw opts else InputFile opts) in
      case isEmptyFile env inputFile of
        Inl e \<Rightarrow> Inl (Failed e)
      | Inr blank \<Rightarrow>
          if blank then Inl (Failed ''blank input file specified'')
          else
            (case storeNew env of
               Some e \<Rightarrow> Inl (Failed (''could not create store: '' @ e))
             | None \<Rightarrow>
                 if MassdnsRaw opts = [] then
                   (case RunWithContext env of
                      Some e \<Rightarrow> Inl (Failed (''could not execute massdns: '' @ e))
                    | None \<Rightarrow>
                        (case parseMassDNSOutputDir opts env Map.empty of
                           Inl f \<Rightarrow> Inl (wrap ''could not parse massdns output: '' f)
                         | Inr st \<Rightarrow> Inr st))
                 else
                   (case parseMassDNSOutputFile (jsonUnmarshal env) (NDJSON opts)
                           (openFile env (MassdnsRaw opts)) Map.empty of
                      Inl f \<Rightarrow> Inl (wrap ''could not parse massdns input: '' f)
                    | Inr st \<Rightarrow> Inr st)))"

text \<open>
  What a run leaves behind: the store handed to the output phase, the wildcard store,
  the goroutines the wildcard filter started and the probes it made, and the sinks.
\<close>

record outcome =
  outStore :: Store
  wildcards :: WildcardStore
  started :: "(string \<times> string) list"
  probes :: "(string \<times> string \<times> bool \<times> string list) list"
  written :: sinks

text \<open>
  Lines 119 to 128: the wildcard filter runs only when a domain has been specified.
  The result carries the store, the wildcard store, and the filter's two records.
\<close>

definition wildcard_phase ::
  "Options \<Rightarrow> environment \<Rightarrow> action list \<Rightarrow> Store \<times> WildcardStore
     \<Rightarrow> (fault + Store \<times> WildcardStore \<times> (string \<times> string) list
                 \<times> (string \<times> string \<times> bool \<times> string list) list) option" where
  "wildcard_phase opts env schedule p =
     (case p of (st, ws) \<Rightarrow>
        if length (Domains opts) > 0 then
          (case filterWildcards (StrictWildcard opts) (WildcardsThreads opts) (storeOrder env st)
                  schedule (st, ws) of
             None \<Rightarrow> None
           | Some (Inl e) \<Rightarrow> Some (Inl (Failed (''could not filter wildcards: '' @ e)))
           | Some (Inr (st', s)) \<Rightarrow> Some (Inr (st', wildcardStore s, submitted s, probed s)))
        else Some (Inr (st, ws, [], [])))"

text \<open>
  \<open>Run\<close>, under a schedule for each of its two concurrent phases. \<open>ws\<close> is the wildcard
  store of the instance when the run begins.
\<close>

definition Run ::
  "Options \<Rightarrow> environment \<Rightarrow> WildcardStore \<Rightarrow> action list \<Rightarrow> output_action list
     \<Rightarrow> (fault + outcome) option" where
  "Run opts env ws filtering writing =
     (case ingestion opts env of
        Inl f \<Rightarrow> Some (Inl f)
      | Inr st \<Rightarrow>
          (case wildcard_phase opts env filtering (st, ws) of
             None \<Rightarrow> None
           | Some (Inl f) \<Rightarrow> Some (Inl f)
           | Some (Inr (st', ws', subs, prbs)) \<Rightarrow>
               (case writeOutput opts env writing st' of
                  None \<Rightarrow> None
                | Some (Inl e) \<Rightarrow> Some (Inl (Failed (''could not write output: '' @ e)))
                | Some (Inr sh) \<Rightarrow>
                    Some (Inr \<lparr>outStore = st', wildcards = ws', started = subs, probes = prbs,
                               written = sh\<rparr>))))"

subsection \<open>A concrete run\<close>

text \<open>
  A raw file of two records read with no domain specified, a trusted resolver that
  knows only \<open>www.example.com\<close>, and plain output to a file and the console.
\<close>

definition sample_query :: "string \<Rightarrow> err + dns_response" where
  "sample_query hostname =
     (if hostname = ''www.example.com'' then Inr \<lparr>respA = [''10.0.0.1''], respCNAME = []\<rparr>
      else if hostname = ''api.example.com'' then Inl ''i/o timeout''
      else Inr \<lparr>respA = [], respCNAME = []\<rparr>)"

definition sample_options :: Options where
  "sample_options =
     \<lparr>InputFile = ''hosts.txt'', MassdnsRaw = ''massdns.out'', TempDir = ''/tmp'', Domains = [],
      NDJSON = False, StrictWildcard = False, WildcardsThreads = 2, OutputFile = ''resolved.txt'',
      Json = False, TrustedResolvers = ''trusted.txt'', OnResult = False\<rparr>"

definition sample_environment :: environment where
  "sample_environment =
     \<lparr>isEmptyFile = (\<lambda>name. Inr False), storeNew = None, createTemp = (\<lambda>name. None),
      cmdRun = None, getFiles = Inr [], isStdout = (\<lambda>name. False),
      openFile = (\<lambda>name. Inr ([
         '';; ANSWER SECTION:'',
         ''www.example.com. 300 IN A 10.0.0.1'',
         '';; ANSWER SECTION:'',
         ''api.example.com. 300 IN A 10.0.0.1''], None)),
      jsonUnmarshal = (\<lambda>text. Inl ''not used''),
      storeOrder = (\<lambda>st. [''10.0.0.1'']),
      createOutput = None, loadResolvers = Inr [''192.0.2.53''],
      dnsxNew = (\<lambda>resolvers. Inr sample_query),
      jsonMarshal = (\<lambda>hostname. Inl ''not used'')\<rparr>"

definition sample_ingested :: Store where
  "sample_ingested =
     [''10.0.0.1'' \<mapsto> \<lparr>Hostnames = [''www.example.com'', ''api.example.com''], Counter = 2\<rparr>]"

definition sample_sinks :: sinks where
  "sample_sinks =
     \<lparr>outfile = [''www.example.com'' @ [CHR 0x0A]], console = [''www.example.com'' @ [CHR 0x0A]],
      resolvedCount = 1,
      info = [''not resolved with trusted resolver - skipping: api.example.com'',
              ''resolved with trusted resolver: www.example.com''],
      hooked = [], emitted = [''www.example.com'']\<rparr>"

subsection \<open>Every run can be completed\<close>

text \<open>
  The steps a goroutine has left when its probe, if it is still to come, answers with no
  wildcard and no address; and the steps the whole phase has left when the scheduler lets
  every goroutine finish before the next one starts.
\<close>

fun stage_cost :: "stage \<Rightarrow> nat" where
  "stage_cost Spawned = 2"
| "stage_cost (Setting isWildcard ips) = length ips + (if isWildcard then 3 else 1)"
| "stage_cost Cancelling = 1"

definition potential :: "filter_state \<Rightarrow> nat" where
  "potential s =
     sum_list (map (\<lambda>g. stage_cost (gStage g)) (running s))
     + (case current s of None \<Rightarrow> 0 | Some (key, hostnames) \<Rightarrow> 3 * length hostnames)
     + sum_list (map (\<lambda>p. 1 + 3 * length (Hostnames (snd p))) (todo s))"

text \<open>The loop over the hostnames of a bucket is under way only while some are left.\<close>

definition well_formed :: "filter_state \<Rightarrow> bool" where
  "well_formed s = (case current s of None \<Rightarrow> True | Some (key, hostnames) \<Rightarrow> hostnames \<noteq> [])"

(*PROPERTIES*)

section \<open>Properties of the result parser\<close>

subsection \<open>Splitting and the header test\<close>



lemma split_from_length: "length (split_from c cur xs) \<le> Suc (length xs)"
  by (induction xs arbitrary: cur) (auto simp add: le_SucI)



lemma answer_header_take:
  assumes "5 \<le> length t"
  shows "answer_header t = Some (take 5 t = '';; AN'')"
proof -
  from assms obtain a b c d e r where t: "t = a # b # c # d # e # r"
    by (auto simp add: eval_nat_numeral Suc_le_length_iff)
  show ?thesis
    unfolding t by (auto simp add: answer_header_def and_also_def byte_is_def)
qed

lemma answer_header_four:
  assumes "length t = 4"
  shows "answer_header t = (if t = '';; A'' then None else Some False)"
proof -
  from assms obtain a b c d where t: "t = [a, b, c, d]"
    by (auto simp add: length_Suc_conv eval_nat_numeral)
  show ?thesis
    unfolding t by (auto simp add: answer_header_def and_also_def byte_is_def)
qed



subsection \<open>Two records, two calls\<close>



subsection \<open>NS suppression\<close>

lemma raw_line_inside:
  "inside_record l \<Longrightarrow>
   raw_line onResult l (s, st) = Inr (if length l < 4 then s else raw_answer l s, st)"
  by (auto simp add: inside_record_def raw_line_def)

lemma raw_answer_suppressed:
  assumes "nsStart s" and "cnameStart s \<or> \<not> is_rr ''CNAME'' l"
  shows "ip (raw_answer l s) = ip s \<and> nsStart (raw_answer l s)
         \<and> cnameStart (raw_answer l s) = cnameStart s"
  using assms by (auto simp add: raw_answer_def raw_record_def is_rr_def Let_def)

lemma raw_lines_suppressed:
  assumes "nsStart s"
    and "\<forall>l \<in> set rest. inside_record l"
    and "cnameStart s \<or> (\<forall>l \<in> set rest. \<not> is_rr ''CNAME'' l)"
  shows "\<exists>s'. raw_lines onResult rest (s, st) = Inr (s', st) \<and> ip s' = ip s \<and> nsStart s'"
  using assms
proof (induction rest arbitrary: s)
  case Nil
  then show ?case by simp
next
  case (Cons l rest)
  let ?s1 = "if length l < 4 then s else raw_answer l s"
  have step: "raw_line onResult l (s, st) = Inr (?s1, st)"
    using Cons.prems(2) by (simp add: raw_line_inside)
  have keep: "ip ?s1 = ip s \<and> nsStart ?s1 \<and> cnameStart ?s1 = cnameStart s"
    using raw_answer_suppressed [of s l] Cons.prems(1,3) by auto
  have "\<exists>s'. raw_lines onResult rest (?s1, st) = Inr (s', st) \<and> ip s' = ip ?s1 \<and> nsStart s'"
  proof (rule Cons.IH)
    show "nsStart ?s1" using keep by simp
    show "\<forall>l \<in> set rest. inside_record l" using Cons.prems(2) by simp
    show "cnameStart ?s1 \<or> (\<forall>l \<in> set rest. \<not> is_rr ''CNAME'' l)"
      using keep Cons.prems(3) by auto
  qed
  then obtain s' where
    "raw_lines onResult rest (?s1, st) = Inr (s', st)" "ip s' = ip ?s1" "nsStart s'"
    by blast
  then show ?case using step keep by auto
qed

text \<open>
  Claim C2, as the code has it. Inside an answer section, once an NS line has been read,
  the lines that follow in the same record (no header among them) add nothing to the
  record's addresses, whatever their types, provided that no CNAME line is read while
  \<open>cnameStart\<close> is still false: either the record had its first CNAME line before the NS
  line, or no CNAME line follows the NS line. The addresses stay those collected before
  the NS line, the callback is not called, and \<open>nsStart\<close> is still set at the end.
\<close>

theorem ns_suppression_until_first_cname:
  assumes "answerStart s"
    and "is_rr ''NS'' nsl" and "answer_header nsl = Some False"
    and "\<forall>l \<in> set rest. inside_record l"
    and "cnameStart s \<or> (\<forall>l \<in> set rest. \<not> is_rr ''CNAME'' l)"
  shows "\<exists>s'. raw_lines onResult (nsl # rest) (s, st) = Inr (s', st)
              \<and> ip s' = ip s \<and> nsStart s'"
proof -
  let ?s1 = "s\<lparr>nsStart := True\<rparr>"
  have five: "length (split_on CHR '' '' nsl) = 5" and ns: "split_on CHR '' '' nsl ! 3 = ''NS''"
    using assms(2) by (simp_all add: is_rr_def)
  have "length (split_on CHR '' '' nsl) \<le> Suc (length nsl)"
    unfolding split_on_def by (rule split_from_length)
  with five have len: "\<not> length nsl < 4" by simp
  then have "nsl \<noteq> []" by auto
  then have step: "raw_line onResult nsl (s, st) = Inr (?s1, st)"
    using len assms(1,3) five ns
    by (simp add: raw_line_def raw_answer_def raw_record_def)
  have "\<exists>s'. raw_lines onResult rest (?s1, st) = Inr (s', st) \<and> ip s' = ip ?s1 \<and> nsStart s'"
    using assms(4,5) by (intro raw_lines_suppressed) auto
  then show ?thesis using step by auto
qed

theorem ns_suppression_until_first_cname_witness:
  "\<exists>s'. raw_lines record_call
      [''a.example. 300 IN NS ns1.example.'', ''b.example. 300 IN MX mail.example.'',
       ''a.example. 300 IN A 10.0.0.1'']
      (raw_init\<lparr>answerStart := True\<rparr>, []) = Inr (s', []) \<and> ip s' = [] \<and> nsStart s'"
  using ns_suppression_until_first_cname [where s = "raw_init\<lparr>answerStart := True\<rparr>"
      and nsl = "''a.example. 300 IN NS ns1.example.''"
      and rest = "[''b.example. 300 IN MX mail.example.'', ''a.example. 300 IN A 10.0.0.1'']"
      and onResult = record_call and st = "[]"]
  by (simp add: is_rr_def split_on_def inside_record_def answer_header_def and_also_def
      byte_is_def raw_init_def)

text \<open>
  The claim as stated fails: the first CNAME line of a record clears \<open>nsStart\<close>
  (line 133), so the A line after it is collected although an NS line came earlier in
  the same record.
\<close>

theorem ns_cleared_by_cname_counterexample:
  "parseRaw ['';; ANSWER SECTION:'', ''a.example. 300 IN NS ns1.example.'',
             ''a.example. 300 IN CNAME b.example.'', ''b.example. 300 IN A 10.0.0.1'']
     None record_call [] = Inr [(''a.example'', [''10.0.0.1''])]"
  by (simp add: parseRaw_def raw_line_def answer_header_def and_also_def byte_is_def
      raw_init_def split_on_def raw_answer_def raw_record_def call_def record_call_def
      trim_dot_def)

subsection \<open>The header test on a four-byte line\<close>

lemma answer_header_None: "4 \<le> length t \<Longrightarrow> answer_header t = None \<longleftrightarrow> t = '';; A''"
proof (cases "length t = 4")
  case True
  then show ?thesis by (simp add: answer_header_four)
next
  case False
  assume "4 \<le> length t"
  with False have "5 \<le> length t" by simp
  then have "answer_header t = Some (take 5 t = '';; AN'')" by (rule answer_header_take)
  moreover have "t \<noteq> '';; A''" using \<open>5 \<le> length t\<close> by auto
  ultimately show ?thesis by simp
qed

text \<open>
  The loop skips lines of fewer than four bytes and then reads \<open>text[4]\<close>. Exactly one
  line makes that read go out of range: the four bytes \<open>;; A\<close>.
\<close>

lemma raw_line_panics_iff:
  "raw_line onResult t (s, st) = Inl IndexOutOfRange \<longleftrightarrow> t = '';; A''"
proof (cases "length t < 4")
  case True
  then have "t \<noteq> '';; A''" by auto
  with True show ?thesis by (simp add: raw_line_def)
next
  case False
  then have len: "4 \<le> length t" by simp
  then have ne: "t \<noteq> []" by auto
  show ?thesis
    using False ne answer_header_None [OF len]
    by (auto simp add: raw_line_def call_def split: option.splits sum.splits)
qed

text \<open>
  Claim C3 at its failing input. A stream whose only line is \<open>;; A\<close> is shorter than
  five bytes, so the claim has it skipped; the parser panics instead, whatever the
  callback.
\<close>

theorem parseRaw_four_byte_header_panics:
  "parseRaw ['';; A''] None onResult st = Inl IndexOutOfRange"
  by (simp add: parseRaw_def raw_line_def answer_header_def and_also_def byte_is_def)

section \<open>Properties of the structured parser\<close>

lemma answer_ips_filter:
  "answer_ips answers ips = ips @ map ansData (filter (\<lambda>a. ansType a = ''A'') answers)"
  by (induction answers arbitrary: ips) auto

lemma ndjson_line_record_call:
  assumes "unmarshal t = Inr r"
  shows "ndjson_line unmarshal record_call t calls =
     Inr (calls @ (if Type r = ''A'' \<and> Status r = ''NOERROR''
                      \<and> (\<exists>a \<in> set (Answers (Data r)). ansType a = ''A'')
                   then [(trim_dot (Name r),
                          map ansData (filter (\<lambda>a. ansType a = ''A'') (Answers (Data r))))]
                   else []))"
  using assms
  by (auto simp add: ndjson_line_def answer_ips_filter call_def record_call_def Let_def
      filter_empty_conv)

text \<open>
  Claim C6. When every line of the stream decodes, the calls the structured parser
  makes are, in line order, one call for each record of type \<open>A\<close> and status \<open>NOERROR\<close>
  that has at least one nested answer of type \<open>A\<close>, and none for any other record. Each
  call carries the name without its trailing dot and the data fields of the nested
  answers of type \<open>A\<close>, in their order.
\<close>

theorem parseNDJSON_calls:
  assumes "map unmarshal lines = map Inr records"
  shows "parseNDJSON unmarshal lines None record_call calls =
     Inr (calls @
          map (\<lambda>r. (trim_dot (Name r),
                     map ansData (filter (\<lambda>a. ansType a = ''A'') (Answers (Data r)))))
            (filter (\<lambda>r. Type r = ''A'' \<and> Status r = ''NOERROR''
                          \<and> (\<exists>a \<in> set (Answers (Data r)). ansType a = ''A''))
               records))"
proof -
  have "ndjson_lines unmarshal record_call lines calls =
     Inr (calls @
          map (\<lambda>r. (trim_dot (Name r),
                     map ansData (filter (\<lambda>a. ansType a = ''A'') (Answers (Data r)))))
            (filter (\<lambda>r. Type r = ''A'' \<and> Status r = ''NOERROR''
                          \<and> (\<exists>a \<in> set (Answers (Data r)). ansType a = ''A''))
               records))"
    using assms
  proof (induction lines arbitrary: records calls)
    case Nil
    then show ?case by simp
  next
    case (Cons t ts)
    then obtain r rs where recs: "records = r # rs" and t: "unmarshal t = Inr r"
      and ts: "map unmarshal ts = map Inr rs"
      by (cases records) auto
    show ?case
      unfolding recs using Cons.IH [OF ts]
      by (simp add: ndjson_line_record_call [of unmarshal t r, OF t])
  qed
  then show ?thesis by (simp add: parseNDJSON_def)
qed

theorem parseNDJSON_calls_witness:
  "map sample_unmarshal [''line 0'', ''line 1'', ''line 2''] = map Inr sample_records
   \<and> parseNDJSON sample_unmarshal [''line 0'', ''line 1'', ''line 2''] None record_call [] =
       Inr [(''www.example.com'', [''10.0.0.1'', ''10.0.0.2''])]"
proof -
  have h: "map sample_unmarshal [''line 0'', ''line 1'', ''line 2''] = map Inr sample_records"
    by (simp add: sample_unmarshal_def sample_records_def)
  show ?thesis
    using h parseNDJSON_calls [OF h, of "[]"]
    by (simp add: sample_records_def trim_dot_def)
qed

section \<open>Properties of ingestion\<close>

lemma ingest_ips_fold:
  "ingest_ips hostname keys st = Inr (foldl (create_or_append hostname) st keys)"
  by (induction keys arbitrary: st)
     (auto simp add: store_Exists_def store_New_def store_Update_def create_or_append_def)

lemma create_or_append_other:
  "key' \<noteq> key \<Longrightarrow> create_or_append hostname st key key' = st key'"
  by (simp add: create_or_append_def split: option.splits)

text \<open>
  Claim C7. For an event \<open>(hostname, addresses)\<close> the callback never fails, and it
  leaves the store as create-or-append leaves it, key after key: under every address
  when there are addresses, and under the one key \<open>CNAME:\<close> followed by the hostname
  when there are none. In the second case that key is in the store afterwards and every
  other key holds what it held before, so the hostname has joined no other bucket.
\<close>

theorem ingest_create_or_append:
  "ingest hostname addresses st =
     Inr (foldl (create_or_append hostname) st
            (if addresses \<noteq> [] then addresses else [''CNAME:'' @ hostname]))
   \<and> (addresses = [] \<longrightarrow>
        (\<forall>st'. ingest hostname addresses st = Inr st' \<longrightarrow>
           st' (''CNAME:'' @ hostname) \<noteq> None
           \<and> (\<forall>key. key \<noteq> ''CNAME:'' @ hostname \<longrightarrow> st' key = st key)))"
proof -
  have one: "ingest hostname addresses st =
     Inr (foldl (create_or_append hostname) st
            (if addresses \<noteq> [] then addresses else [''CNAME:'' @ hostname]))"
    by (auto simp add: ingest_def ingest_ips_fold store_Exists_def store_New_def
        store_Update_def create_or_append_def Let_def)
  show ?thesis
    unfolding one
    by (auto simp add: create_or_append_other)
       (simp add: create_or_append_def split: option.splits)
qed

theorem ingest_create_or_append_witness:
  "ingest ''www.example.com'' [''10.0.0.1'', ''10.0.0.2'']
     [''10.0.0.1'' \<mapsto> \<lparr>Hostnames = [''api.example.com''], Counter = 1\<rparr>] =
   Inr [''10.0.0.1'' \<mapsto> \<lparr>Hostnames = [''api.example.com'', ''www.example.com''], Counter = 2\<rparr>,
        ''10.0.0.2'' \<mapsto> \<lparr>Hostnames = [''www.example.com''], Counter = 1\<rparr>]
   \<and> ingest ''alias.example.com'' []
     [''10.0.0.1'' \<mapsto> \<lparr>Hostnames = [''api.example.com''], Counter = 1\<rparr>] =
   Inr [''10.0.0.1'' \<mapsto> \<lparr>Hostnames = [''api.example.com''], Counter = 1\<rparr>,
        ''CNAME:alias.example.com'' \<mapsto> \<lparr>Hostnames = [''alias.example.com''], Counter = 1\<rparr>]"
  using ingest_create_or_append [of "''www.example.com''" "[''10.0.0.1'', ''10.0.0.2'']"
      "[''10.0.0.1'' \<mapsto> \<lparr>Hostnames = [''api.example.com''], Counter = 1\<rparr>]"]
    ingest_create_or_append [of "''alias.example.com''" "[]"
      "[''10.0.0.1'' \<mapsto> \<lparr>Hostnames = [''api.example.com''], Counter = 1\<rparr>]"]
  by (simp add: create_or_append_def)

section \<open>Properties of the wildcard filter\<close>

subsection \<open>Every probe ends up in the wildcard store\<close>

lemma set_wildcard_Set: "set (wildcard_Set ws key) = insert key (set ws)"
  by (auto simp add: wildcard_Set_def)













lemma drop_wildcards_eq:
  "drop_wildcards ks st = Inr (\<lambda>key. if key \<in> set ks then None else st key)"
  by (induction ks arbitrary: st) (auto simp add: store_Delete_def fun_eq_iff)

subsection \<open>Which goroutines are started\<close>


lemma advance_frame:
  assumes "advance i answer s = Some s'"
  shows "todo s' = todo s \<and> current s' = current s \<and> submitted s' = submitted s
         \<and> set (wildcardStore s) \<subseteq> set (wildcardStore s')"
proof -
  from assms have i: "i < length (running s)" by (simp add: advance_def split: if_splits)
  show ?thesis
  proof (cases "gStage (running s ! i)")
    case Spawned
    with assms i show ?thesis by (auto simp add: advance_def Let_def split: if_splits)
  next
    case (Setting w ks)
    with assms i show ?thesis
      by (cases ks) (auto simp add: advance_def Let_def set_wildcard_Set split: if_splits)
  next
    case Cancelling
    with assms i show ?thesis by (auto simp add: advance_def Let_def)
  qed
qed

lemma submit_inv_advance:
  assumes inv: "submit_inv strict entries s" and step: "advance i answer s = Some s'"
  shows "submit_inv strict entries s'"
proof -
  note fr = advance_frame [OF step]
  have sub: "submitted_for key s' = submitted_for key s" for key
    using fr by (simp add: submitted_for_def)
  have w: "bucket_waiting s' key" if "bucket_waiting s key" for key
    using that fr sub by (simp add: bucket_waiting_def)
  have l: "bucket_looping strict s' key m" if "bucket_looping strict s key m" for key m
    using that fr sub by (simp add: bucket_looping_def)
  have v: "bucket_visited strict s' key m" if "bucket_visited strict s key m" for key m
    using that fr sub unfolding bucket_visited_def by auto
  show ?thesis
    unfolding submit_inv_def
  proof (intro conjI allI impI)
    show "distinct (map fst (todo s'))" using inv fr by (simp add: submit_inv_def)
    show "set (todo s') \<subseteq> set entries" using inv fr by (simp add: submit_inv_def)
  next
    fix key m assume "(key, m) \<in> set entries"
    with inv have "bucket_waiting s key \<or> bucket_looping strict s key m \<or> bucket_visited strict s key m"
      unfolding submit_inv_def by blast
    then show "bucket_waiting s' key \<or> bucket_looping strict s' key m \<or> bucket_visited strict s' key m"
      using w l v by blast
  qed
qed


lemma submit_inv_spawn:
  assumes inv: "submit_inv strict entries s" and step: "spawn slots s = Some s'"
  shows "submit_inv strict entries s'"
proof -
  from step obtain k h rest where cur: "current s = Some (k, h # rest)"
    and s': "s' = s\<lparr>current := loop_over k rest,
                    running := running s @ [\<lparr>gIP = k, gHostname = h, gStage = Spawned\<rparr>],
                    submitted := submitted s @ [(k, h)]\<rparr>"
    by (auto simp add: spawn_def split: option.splits list.splits if_splits prod.splits)
  have todo: "todo s' = todo s" and W: "wildcardStore s' = wildcardStore s" by (simp_all add: s')
  have sub: "submitted_for key s' = submitted_for key s @ (if key = k then [h] else [])" for key
    by (simp add: submitted_for_def s')
  have cur': "current s' = Some (key, hs) \<Longrightarrow> key = k" for key hs
    by (auto simp add: s' loop_over_def split: if_splits)
  show ?thesis
    unfolding submit_inv_def
  proof (intro conjI allI impI)
    show "distinct (map fst (todo s'))" using inv todo by (simp add: submit_inv_def)
    show "set (todo s') \<subseteq> set entries" using inv todo by (simp add: submit_inv_def)
  next
    fix key m assume "(key, m) \<in> set entries"
    with inv have old: "bucket_waiting s key \<or> bucket_looping strict s key m \<or> bucket_visited strict s key m"
      unfolding submit_inv_def by blast
    show "bucket_waiting s' key \<or> bucket_looping strict s' key m \<or> bucket_visited strict s' key m"
    proof (cases "key = k")
      case False
      then have same: "submitted_for key s' = submitted_for key s" by (simp add: sub)
      have nocur: "current s' \<noteq> Some (key, hs)" for hs using cur' False by blast
      from old False cur have "bucket_waiting s key \<or> bucket_visited strict s key m"
        by (auto simp add: bucket_looping_def)
      then show ?thesis
      proof
        assume "bucket_waiting s key"
        then have "bucket_waiting s' key"
          using same todo nocur by (simp add: bucket_waiting_def)
        then show ?thesis by simp
      next
        assume "bucket_visited strict s key m"
        then have "bucket_visited strict s' key m"
          using same todo nocur W by (simp add: bucket_visited_def)
        then show ?thesis by simp
      qed
    next
      case True
      from old True cur have loop: "bucket_looping strict s key m"
        by (auto simp add: bucket_waiting_def bucket_visited_def)
      then have notin: "key \<notin> fst ` set (todo s)" and el: "eligible strict m"
        and hs: "submitted_for key s @ h # rest = Hostnames m"
        using cur True by (auto simp add: bucket_looping_def)
      have sub': "submitted_for key s' @ rest = Hostnames m" using hs True by (simp add: sub)
      show ?thesis
      proof (cases "rest = []")
        case True
        then have "current s' = None" by (simp add: s' loop_over_def)
        then have "bucket_visited strict s' key m"
          using sub' True notin el todo by (simp add: bucket_visited_def)
        then show ?thesis by simp
      next
        case False
        then have "current s' = Some (key, rest)" using \<open>key = k\<close> by (simp add: s' loop_over_def)
        then have "bucket_looping strict s' key m"
          using sub' notin el todo by (simp add: bucket_looping_def)
        then show ?thesis by simp
      qed
    qed
  qed
qed

lemma submit_inv_visit:
  assumes inv: "submit_inv strict entries s" and step: "visit strict s = Some s'"
    and dist: "distinct (map fst entries)"
  shows "submit_inv strict entries s'"
proof -
  from step obtain k m0 rest where cur: "current s = None" and td: "todo s = (k, m0) # rest"
    by (auto simp add: visit_def split: option.splits list.splits if_splits prod.splits)
  have dt: "distinct (map fst (todo s))" and sub_entries: "set (todo s) \<subseteq> set entries"
    using inv by (simp_all add: submit_inv_def)
  have k_notin: "k \<notin> fst ` set rest" using dt td by auto
  have k_entry: "(k, m0) \<in> set entries" using sub_entries td by auto
  have todo': "todo s' = rest"
    using step cur td by (auto simp add: visit_def split: if_splits)
  have W: "wildcardStore s' = wildcardStore s" and sub: "submitted s' = submitted s"
    using step cur td by (auto simp add: visit_def split: if_splits)
  have same: "submitted_for key s' = submitted_for key s" for key
    by (simp add: submitted_for_def sub)
  have cur': "current s' = Some (key, hs) \<Longrightarrow> key = k" for key hs
    using step cur td by (auto simp add: visit_def loop_over_def split: if_splits)
  show ?thesis
    unfolding submit_inv_def
  proof (intro conjI allI impI)
    show "distinct (map fst (todo s'))" using dt td todo' by simp
    show "set (todo s') \<subseteq> set entries" using sub_entries td todo' by auto
  next
    fix key m assume entry: "(key, m) \<in> set entries"
    with inv have old: "bucket_waiting s key \<or> bucket_looping strict s key m \<or> bucket_visited strict s key m"
      unfolding submit_inv_def by blast
    show "bucket_waiting s' key \<or> bucket_looping strict s' key m \<or> bucket_visited strict s' key m"
    proof (cases "key = k")
      case False
      have nocur: "current s' \<noteq> Some (key, hs)" for hs using cur' False by blast
      from old cur have "bucket_waiting s key \<or> bucket_visited strict s key m"
        by (auto simp add: bucket_looping_def)
      then show ?thesis
      proof
        assume "bucket_waiting s key"
        then have "key \<in> fst ` set rest" using td False by (auto simp add: bucket_waiting_def)
        with \<open>bucket_waiting s key\<close> have "bucket_waiting s' key"
          using same todo' nocur by (simp add: bucket_waiting_def)
        then show ?thesis by simp
      next
        assume v: "bucket_visited strict s key m"
        then have "key \<notin> fst ` set rest" using td by (auto simp add: bucket_visited_def)
        with v have "bucket_visited strict s' key m"
          using same todo' nocur W by (simp add: bucket_visited_def)
        then show ?thesis by simp
      qed
    next
      case True
      with entry k_entry dist have m: "m = m0" by (meson eq_key_imp_eq_value)
      from old True td have "bucket_waiting s key"
        by (auto simp add: bucket_looping_def bucket_visited_def)
      then have none: "submitted_for key s' = []" by (simp add: bucket_waiting_def same)
      have notin: "key \<notin> fst ` set (todo s')" using k_notin True todo' by simp
      show ?thesis
      proof (cases "wildcard_Has (wildcardStore s) k")
        case has: True
        then have "current s' = None" using step cur td by (auto simp add: visit_def)
        then have "bucket_visited strict s' key m"
          using none notin has W True by (simp add: bucket_visited_def wildcard_Has_def)
        then show ?thesis by simp
      next
        case nothas: False
        show ?thesis
        proof (cases "eligible strict m0")
          case el: True
          then have c: "current s' = loop_over k (Hostnames m0)"
            using step cur td nothas by (auto simp add: visit_def eligible_def)
          show ?thesis
          proof (cases "Hostnames m0 = []")
            case True
            then have "current s' = None" using c by (simp add: loop_over_def)
            then have "bucket_visited strict s' key m"
              using none notin el m True by (simp add: bucket_visited_def)
            then show ?thesis by simp
          next
            case False
            then have "current s' = Some (key, Hostnames m)"
              using c m \<open>key = k\<close> by (simp add: loop_over_def)
            then have "bucket_looping strict s' key m"
              using none notin el m by (simp add: bucket_looping_def)
            then show ?thesis by simp
          qed
        next
          case nel: False
          then have "current s' = None"
            using step cur td nothas by (auto simp add: visit_def eligible_def)
          then have "bucket_visited strict s' key m"
            using none notin nel m by (simp add: bucket_visited_def)
          then show ?thesis by simp
        qed
      qed
    qed
  qed
qed

lemma submit_inv_run:
  assumes "distinct (map fst entries)"
  shows "submit_inv strict entries s \<Longrightarrow> filter_run strict slots as s = Some s'
         \<Longrightarrow> submit_inv strict entries s'"
proof (induction as arbitrary: s)
  case Nil
  then show ?case by simp
next
  case (Cons a as)
  from Cons.prems(2) obtain s1 where s1: "filter_step strict slots a s = Some s1"
    and rest: "filter_run strict slots as s1 = Some s'"
    by (auto split: option.splits)
  have "submit_inv strict entries s1"
  proof (cases a)
    case Iterate
    with s1 have v: "visit strict s = Some s1" by (simp add: filter_step_def)
    show ?thesis by (rule submit_inv_visit [OF Cons.prems(1) v assms])
  next
    case Spawn
    with s1 have "spawn slots s = Some s1" by (simp add: filter_step_def)
    then show ?thesis using Cons.prems(1) by (rule submit_inv_spawn [rotated])
  next
    case (Step i answer)
    with s1 have "advance i answer s = Some s1" by (simp add: filter_step_def)
    then show ?thesis using Cons.prems(1) by (rule submit_inv_advance [rotated])
  qed
  then show ?case using rest by (rule Cons.IH)
qed

lemma submit_inv_init:
  "distinct (map fst entries) \<Longrightarrow> submit_inv strict entries (filter_init entries ws)"
  by (auto simp add: submit_inv_def filter_init_def bucket_waiting_def submitted_for_def
      intro: rev_image_eqI)

lemma store_entries_keys:
  "map fst (store_entries st order) = filter (\<lambda>key. st key \<noteq> None) order"
  by (induction order) (auto simp add: store_entries_def List.map_filter_def)

lemma store_entries_set:
  "(key, m) \<in> set (store_entries st order) \<longleftrightarrow> key \<in> set order \<and> st key = Some m"
  by (induction order) (auto simp add: store_entries_def List.map_filter_def)

subsection \<open>After the join\<close>

lemma filterWildcards_joined:
  assumes "filterWildcards strict threads order schedule (st, ws) = Some r"
  shows "\<exists>s. filter_run strict (pool_size threads) schedule (filter_init (store_entries st order) ws) = Some s
           \<and> joined s
           \<and> r = Inr (\<lambda>key. if key \<in> set (wildcardStore s) then None else st key, s)"
  using assms
  by (auto simp add: filterWildcards_def drop_wildcards_eq split: option.splits if_splits)

lemmas filter_defs = filterWildcards_def filter_init_def store_entries_def List.map_filter_def
  pool_size_def filter_step_def visit_def spawn_def advance_def loop_over_def without_def
  wildcard_Has_def wildcard_Set_def joined_def store_Delete_def Let_def


lemma quiet_run:
  "filterWildcards False 2 [''10.0.0.5'', ''10.0.0.9''] quiet_schedule (sample_store, [])
     = Some (Inr quiet_outcome)"
  by (simp add: filter_defs sample_store_def quiet_schedule_def quiet_outcome_def
      fun_upd_twist)



text \<open>
  Claim C4, as the code has it. After the join, for every bucket of the store: its
  hostnames were handed to goroutines all or none, in the bucket's order; some were only
  if the bucket is eligible (counter at least 5, or the strict flag); all were if the
  bucket is eligible and its key is not in the wildcard store, for the iteration passes
  over an eligible bucket only when it finds the key there. A bucket that is not
  eligible had no goroutine started, and the store that goes to the output phase holds
  it unchanged when its key is not in the wildcard store and does not hold it otherwise.
\<close>

theorem probe_eligibility:
  assumes run: "filterWildcards strict threads order schedule (st, ws) = Some (Inr (st', s))"
    and ord: "iteration_order st order" and entry: "st key = Some m"
  shows "(submitted_for key s = Hostnames m \<or> submitted_for key s = [])
       \<and> (submitted_for key s \<noteq> [] \<longrightarrow> eligible strict m)
       \<and> (eligible strict m \<and> key \<notin> set (wildcardStore s) \<longrightarrow> submitted_for key s = Hostnames m)
       \<and> (\<not> eligible strict m \<longrightarrow>
            submitted_for key s = []
            \<and> st' key = (if key \<in> set (wildcardStore s) then None else Some m))"
proof -
  let ?entries = "store_entries st order"
  from filterWildcards_joined [OF run] have
    frun: "filter_run strict (pool_size threads) schedule (filter_init ?entries ws) = Some s"
    and j: "joined s"
    and st': "st' = (\<lambda>key. if key \<in> set (wildcardStore s) then None else st key)"
    by auto
  have dist: "distinct (map fst ?entries)"
    using ord by (simp add: store_entries_keys iteration_order_def)
  have inv: "submit_inv strict ?entries s"
    using submit_inv_init [OF dist] frun by (rule submit_inv_run [OF dist])
  have "key \<in> set order" using ord entry by (auto simp add: iteration_order_def)
  then have "(key, m) \<in> set ?entries" using entry by (simp add: store_entries_set)
  with inv have "bucket_waiting s key \<or> bucket_looping strict s key m \<or> bucket_visited strict s key m"
    unfolding submit_inv_def by blast
  moreover have "\<not> bucket_waiting s key" "\<not> bucket_looping strict s key m"
    using j by (simp_all add: joined_def bucket_waiting_def bucket_looping_def)
  ultimately have "bucket_visited strict s key m" by blast
  then show ?thesis
    using entry by (auto simp add: bucket_visited_def st')
qed

theorem probe_eligibility_witness:
  "filterWildcards False 2 [''10.0.0.5'', ''10.0.0.9''] quiet_schedule (sample_store, [])
     = Some (Inr (fst quiet_outcome, snd quiet_outcome))
   \<and> iteration_order sample_store [''10.0.0.5'', ''10.0.0.9'']
   \<and> sample_store ''10.0.0.5'' = Some \<lparr>Hostnames = [''w1'', ''w2'', ''w3'', ''w4'', ''w5''], Counter = 5\<rparr>
   \<and> sample_store ''10.0.0.9'' = Some \<lparr>Hostnames = [''app''], Counter = 1\<rparr>
   \<and> submitted_for ''10.0.0.5'' (snd quiet_outcome) = [''w1'', ''w2'', ''w3'', ''w4'', ''w5'']
   \<and> submitted_for ''10.0.0.9'' (snd quiet_outcome) = []
   \<and> fst quiet_outcome ''10.0.0.9'' = Some \<lparr>Hostnames = [''app''], Counter = 1\<rparr>"
proof -
  have run: "filterWildcards False 2 [''10.0.0.5'', ''10.0.0.9''] quiet_schedule (sample_store, [])
     = Some (Inr (fst quiet_outcome, snd quiet_outcome))"
    using quiet_run by simp
  have ord: "iteration_order sample_store [''10.0.0.5'', ''10.0.0.9'']"
    by (auto simp add: iteration_order_def sample_store_def)
  have big: "sample_store ''10.0.0.5'' = Some \<lparr>Hostnames = [''w1'', ''w2'', ''w3'', ''w4'', ''w5''], Counter = 5\<rparr>"
    and small: "sample_store ''10.0.0.9'' = Some \<lparr>Hostnames = [''app''], Counter = 1\<rparr>"
    by (simp_all add: sample_store_def)
  have W: "wildcardStore (snd quiet_outcome) = []" by (simp add: quiet_outcome_def)
  from probe_eligibility [OF run ord big]
  have "submitted_for ''10.0.0.5'' (snd quiet_outcome) = [''w1'', ''w2'', ''w3'', ''w4'', ''w5'']"
    by (simp add: eligible_def W)
  moreover from probe_eligibility [OF run ord small]
  have "submitted_for ''10.0.0.9'' (snd quiet_outcome) = []"
    and "fst quiet_outcome ''10.0.0.9'' = Some \<lparr>Hostnames = [''app''], Counter = 1\<rparr>"
    by (simp_all add: eligible_def W)
  ultimately show ?thesis using run ord big small by simp
qed

text \<open>
  The claim as stated fails on both counts. In this run the first probe of the bucket
  \<open>10.0.0.5\<close> observes the addresses \<open>10.0.0.9\<close> and \<open>10.0.0.7\<close>, which enter the
  wildcard store. The bucket \<open>10.0.0.9\<close>, with a counter of 5, is then passed over (line
  215): none of its hostnames is handed to a goroutine. The bucket \<open>10.0.0.7\<close>, with a
  counter of 1 and the strict flag off, is deleted with the other keys of the wildcard
  store and does not reach the output phase.
\<close>

theorem eligible_skipped_ineligible_deleted_counterexample:
  "filterWildcards False 10 [''10.0.0.5'', ''10.0.0.9'', ''10.0.0.7'']
     [Iterate,
      Spawn, Step 0 (False, [''10.0.0.9'', ''10.0.0.7'']), Step 0 (False, []), Step 0 (False, []),
        Step 0 (False, []),
      Spawn, Step 0 (False, []), Step 0 (False, []),
      Spawn, Step 0 (False, []), Step 0 (False, []),
      Spawn, Step 0 (False, []), Step 0 (False, []),
      Spawn, Step 0 (False, []), Step 0 (False, []),
      Iterate, Iterate]
     ([''10.0.0.5'' \<mapsto> \<lparr>Hostnames = [''w1'', ''w2'', ''w3'', ''w4'', ''w5''], Counter = 5\<rparr>,
       ''10.0.0.9'' \<mapsto> \<lparr>Hostnames = [''a1'', ''a2'', ''a3'', ''a4'', ''a5''], Counter = 5\<rparr>,
       ''10.0.0.7'' \<mapsto> \<lparr>Hostnames = [''app''], Counter = 1\<rparr>], [])
   = Some (Inr ([''10.0.0.5'' \<mapsto> \<lparr>Hostnames = [''w1'', ''w2'', ''w3'', ''w4'', ''w5''], Counter = 5\<rparr>],
        \<lparr>todo = [], current = None, running = [], cancelled = {},
         wildcardStore = [''10.0.0.9'', ''10.0.0.7''],
         submitted = [(''10.0.0.5'', ''w1''), (''10.0.0.5'', ''w2''), (''10.0.0.5'', ''w3''),
                      (''10.0.0.5'', ''w4''), (''10.0.0.5'', ''w5'')],
         probed = [(''10.0.0.5'', ''w1'', False, [''10.0.0.9'', ''10.0.0.7'']),
                   (''10.0.0.5'', ''w2'', False, []), (''10.0.0.5'', ''w3'', False, []),
                   (''10.0.0.5'', ''w4'', False, []), (''10.0.0.5'', ''w5'', False, [])]\<rparr>))"
  by (simp add: filter_defs fun_upd_twist)

section \<open>Properties of the output phase\<close>







section \<open>Properties of the run\<close>

lemmas parse_defs = parseRaw_def raw_line_def answer_header_def and_also_def byte_is_def
  raw_init_def split_on_def raw_answer_def raw_record_def call_def trim_dot_def

lemma sample_ingestion: "ingestion sample_options sample_environment = Inr sample_ingested"
  by (simp add: ingestion_def sample_options_def sample_environment_def sample_ingested_def
      parseMassDNSOutputFile_def Parse_def parse_defs ingest_def store_Exists_def store_New_def
      store_Update_def)

lemmas output_defs = writeOutput_def trusted_resolver_def output_init_def output_step_def
  emit_def without_def pool_size_def store_entries_def List.map_filter_def Let_def

lemma sample_output:
  "writeOutput sample_options sample_environment [Walk, Walk, Emit 1, Emit 0] sample_ingested
     = Some (Inr sample_sinks)"
  by (simp add: output_defs sample_options_def sample_environment_def sample_ingested_def
      sample_sinks_def sample_query_def)


text \<open>
  Claim C10. When the run has no domain configured, the wildcard phase does nothing,
  whatever schedule it is offered: it hands on the store and the wildcard store as it
  got them, with no goroutine started and no probe made. A run that completes has then
  written its output from the very store the ingestion left, its wildcard store is the
  one it began with, and its records of goroutines and probes are empty.
\<close>

theorem no_domains_no_wildcard_phase:
  assumes "length (Domains opts) = 0"
  shows "wildcard_phase opts env filtering (st, ws) = Some (Inr (st, ws, [], []))
       \<and> (\<forall>out. Run opts env ws filtering writing = Some (Inr out) \<longrightarrow>
             ingestion opts env = Inr (outStore out)
             \<and> wildcards out = ws \<and> started out = [] \<and> probes out = []
             \<and> writeOutput opts env writing (outStore out) = Some (Inr (written out)))"
proof -
  have phase: "wildcard_phase opts env filtering (st, ws) = Some (Inr (st, ws, [], []))" for st
    using assms by (simp add: wildcard_phase_def)
  show ?thesis
    by (auto simp add: phase Run_def split: sum.splits option.splits)
qed

theorem no_domains_no_wildcard_phase_witness:
  "length (Domains sample_options) = 0
   \<and> Run sample_options sample_environment [] [Iterate, Spawn] [Walk, Walk, Emit 1, Emit 0]
       = Some (Inr \<lparr>outStore = sample_ingested, wildcards = [], started = [], probes = [],
                    written = sample_sinks\<rparr>)
   \<and> wildcard_phase sample_options sample_environment [Iterate, Spawn] (sample_ingested, [])
       = Some (Inr (sample_ingested, [], [], []))"
proof -
  have none: "length (Domains sample_options) = 0" by (simp add: sample_options_def)
  from no_domains_no_wildcard_phase [OF none]
  have phase: "wildcard_phase sample_options sample_environment [Iterate, Spawn] (sample_ingested, [])
       = Some (Inr (sample_ingested, [], [], []))"
    by blast
  then have "Run sample_options sample_environment [] [Iterate, Spawn] [Walk, Walk, Emit 1, Emit 0]
       = Some (Inr \<lparr>outStore = sample_ingested, wildcards = [], started = [], probes = [],
                    written = sample_sinks\<rparr>)"
    by (simp add: Run_def sample_ingestion sample_output [unfolded One_nat_def])
  with none phase show ?thesis by simp
qed

section \<open>Both concurrent phases reach their barrier\<close>

text \<open>
  A schedule that is refused says nothing about the program, so the properties of the
  runs above would be empty if no schedule were complete. They are not: whatever the
  store, the options and the answers of the resolver, the scheduler that lets each
  goroutine finish before it starts the next one reaches \<open>wildcardWg.Wait()\<close> and
  \<open>swg.Wait()\<close>. Each step it takes lowers the count of the steps left.
\<close>

lemma well_formed_loop_over: "well_formed (s\<lparr>current := loop_over key hs\<rparr>)"
  by (simp add: well_formed_def loop_over_def)

lemma potential_loop_over:
  "(case loop_over key hs of None \<Rightarrow> 0 | Some (k, hostnames) \<Rightarrow> 3 * length hostnames) = 3 * length hs"
  by (simp add: loop_over_def)

lemma filter_progress:
  assumes wf: "well_formed s" and nj: "\<not> joined s" and slots: "0 < slots"
  shows "\<exists>a s'. filter_step strict slots a s = Some s' \<and> potential s' < potential s
                \<and> well_formed s'"
proof (cases "running s")
  case (Cons g gs)
  let ?a = "Step 0 (False, [])"
  have len: "0 < length (running s)" and g0: "running s ! 0 = g" using Cons by simp_all
  show ?thesis
  proof (cases "gStage g")
    case Spawned
    show ?thesis
    proof (cases "gIP g \<in> cancelled s")
      case True
      let ?s' = "s\<lparr>running := without 0 (running s)\<rparr>"
      have "filter_step strict slots ?a s = Some ?s'"
        using Spawned True len g0 by (simp add: filter_step_def advance_def Let_def)
      moreover have "potential ?s' < potential s"
        using Cons Spawned by (simp add: potential_def without_def)
      moreover have "well_formed ?s'" using wf by (simp add: well_formed_def)
      ultimately show ?thesis by blast
    next
      case False
      let ?s' = "s\<lparr>running := (running s)[0 := g\<lparr>gStage := Setting False []\<rparr>],
                    probed := probed s @ [(gIP g, gHostname g, False, [])]\<rparr>"
      have "filter_step strict slots ?a s = Some ?s'"
        using Spawned False len g0 by (simp add: filter_step_def advance_def Let_def)
      moreover have "potential ?s' < potential s"
        using Cons Spawned by (simp add: potential_def)
      moreover have "well_formed ?s'" using wf by (simp add: well_formed_def)
      ultimately show ?thesis by blast
    qed
  next
    case (Setting w ks)
    show ?thesis
    proof (cases ks)
      case (Cons k rest)
      let ?s' = "s\<lparr>wildcardStore := wildcard_Set (wildcardStore s) k,
                    running := (running s)[0 := g\<lparr>gStage := Setting w rest\<rparr>]\<rparr>"
      have "filter_step strict slots ?a s = Some ?s'"
        using Setting Cons len g0 by (simp add: filter_step_def advance_def Let_def)
      moreover have "potential ?s' < potential s"
        using \<open>running s = g # gs\<close> Setting Cons by (simp add: potential_def)
      moreover have "well_formed ?s'" using wf by (simp add: well_formed_def)
      ultimately show ?thesis by blast
    next
      case Nil
      show ?thesis
      proof (cases w)
        case True
        let ?s' = "s\<lparr>wildcardStore := wildcard_Set (wildcardStore s) (gIP g),
                      running := (running s)[0 := g\<lparr>gStage := Cancelling\<rparr>]\<rparr>"
        have "filter_step strict slots ?a s = Some ?s'"
          using Setting Nil True len g0 by (simp add: filter_step_def advance_def Let_def)
        moreover have "potential ?s' < potential s"
          using \<open>running s = g # gs\<close> Setting Nil True by (simp add: potential_def)
        moreover have "well_formed ?s'" using wf by (simp add: well_formed_def)
        ultimately show ?thesis by blast
      next
        case False
        let ?s' = "s\<lparr>running := without 0 (running s)\<rparr>"
        have "filter_step strict slots ?a s = Some ?s'"
          using Setting Nil False len g0 by (simp add: filter_step_def advance_def Let_def)
        moreover have "potential ?s' < potential s"
          using \<open>running s = g # gs\<close> Setting Nil False by (simp add: potential_def without_def)
        moreover have "well_formed ?s'" using wf by (simp add: well_formed_def)
        ultimately show ?thesis by blast
      qed
    qed
  next
    case Cancelling
    let ?s' = "s\<lparr>cancelled := insert (gIP g) (cancelled s), running := without 0 (running s)\<rparr>"
    have "filter_step strict slots ?a s = Some ?s'"
      using Cancelling len g0 by (simp add: filter_step_def advance_def Let_def)
    moreover have "potential ?s' < potential s"
      using Cons Cancelling by (simp add: potential_def without_def)
    moreover have "well_formed ?s'" using wf by (simp add: well_formed_def)
    ultimately show ?thesis by blast
  qed
next
  case Nil
  show ?thesis
  proof (cases "current s")
    case (Some c)
    obtain key hs where c: "c = (key, hs)" by (cases c)
    with wf Some obtain h rest where hs: "hs = h # rest"
      by (cases hs) (auto simp add: well_formed_def)
    let ?s' = "s\<lparr>current := loop_over key rest,
                  running := running s @ [\<lparr>gIP = key, gHostname = h, gStage = Spawned\<rparr>],
                  submitted := submitted s @ [(key, h)]\<rparr>"
    have "filter_step strict slots Spawn s = Some ?s'"
      using Some c hs Nil slots by (simp add: filter_step_def spawn_def)
    moreover have "potential ?s' < potential s"
      using Some c hs Nil by (simp add: potential_def potential_loop_over)
    moreover have "well_formed ?s'" by (simp add: well_formed_def loop_over_def)
    ultimately show ?thesis by blast
  next
    case None
    with nj Nil obtain key m rest where td: "todo s = (key, m) # rest"
      by (cases "todo s") (auto simp add: joined_def)
    have "\<exists>s'. visit strict s = Some s'
            \<and> (s' = s\<lparr>todo := rest\<rparr>
                 \<or> s' = s\<lparr>todo := rest, current := loop_over key (Hostnames m)\<rparr>)"
      using None td by (simp add: visit_def)
    then obtain s' where step: "visit strict s = Some s'"
      and cases: "s' = s\<lparr>todo := rest\<rparr> \<or> s' = s\<lparr>todo := rest, current := loop_over key (Hostnames m)\<rparr>"
      by blast
    from cases have "potential s' < potential s \<and> well_formed s'"
    proof
      assume "s' = s\<lparr>todo := rest\<rparr>"
      then show ?thesis using None td by (simp add: potential_def well_formed_def)
    next
      assume "s' = s\<lparr>todo := rest, current := loop_over key (Hostnames m)\<rparr>"
      then show ?thesis
        using None td by (simp add: potential_def potential_loop_over well_formed_def loop_over_def)
    qed
    moreover have "filter_step strict slots Iterate s = Some s'"
      using step by (simp add: filter_step_def)
    ultimately show ?thesis by blast
  qed
qed

lemma filter_completes:
  assumes "0 < slots"
  shows "well_formed s \<Longrightarrow> \<exists>as s'. filter_run strict slots as s = Some s' \<and> joined s'"
proof (induction "potential s" arbitrary: s rule: less_induct)
  case less
  show ?case
  proof (cases "joined s")
    case True
    then have "filter_run strict slots [] s = Some s \<and> joined s" by simp
    then show ?thesis by blast
  next
    case False
    from filter_progress [OF less.prems False assms, of strict]
    obtain a s1 where step: "filter_step strict slots a s = Some s1"
      and dec: "potential s1 < potential s" and wf1: "well_formed s1"
      by blast
    from less.hyps [OF dec wf1] obtain as s' where
      "filter_run strict slots as s1 = Some s'" "joined s'" by blast
    then have "filter_run strict slots (a # as) s = Some s' \<and> joined s'"
      using step by simp
    then show ?thesis by blast
  qed
qed

lemma filterWildcards_completes:
  "\<exists>schedule r. filterWildcards strict threads order schedule (st, ws) = Some r"
proof -
  have "0 < pool_size threads" by (simp add: pool_size_def)
  moreover have "well_formed (filter_init (store_entries st order) ws)"
    by (simp add: well_formed_def filter_init_def)
  ultimately obtain as s' where
    "filter_run strict (pool_size threads) as (filter_init (store_entries st order) ws) = Some s'"
    "joined s'"
    using filter_completes by blast
  then have "filterWildcards strict threads order as (st, ws) \<noteq> None"
    by (simp add: filterWildcards_def)
  then show ?thesis by blast
qed

text \<open>The same for the output: two steps for a hostname still to walk, one for a goroutine.\<close>

lemma output_progress:
  assumes nj: "\<not> (walk s = [] \<and> emitting s = [])" and slots: "0 < slots"
  shows "\<exists>a s'. output_step opts env resolver slots a s = Some s'
                \<and> 2 * length (walk s') + length (emitting s') < 2 * length (walk s) + length (emitting s)"
proof (cases "emitting s")
  case (Cons h hs)
  let ?s' = "s\<lparr>emitting := without 0 (emitting s),
                shared := emit opts env resolver (emitting s ! 0) (shared s)\<rparr>"
  have "output_step opts env resolver slots (Emit 0) s = Some ?s'"
    using Cons by (simp add: output_step_def)
  moreover have "2 * length (walk ?s') + length (emitting ?s') < 2 * length (walk s) + length (emitting s)"
    using Cons by (simp add: without_def)
  ultimately show ?thesis by blast
next
  case Nil
  with nj obtain h rest where w: "walk s = h # rest" by (cases "walk s") auto
  have "\<exists>s'. output_step opts env resolver slots Walk s = Some s'
          \<and> walk s' = rest \<and> length (emitting s') \<le> 1"
    using Nil w slots by (simp add: output_step_def)
  then obtain s' where "output_step opts env resolver slots Walk s = Some s'"
    and "walk s' = rest" and "length (emitting s') \<le> 1" by blast
  moreover have "2 * length (walk s') + length (emitting s') < 2 * length (walk s) + length (emitting s)"
    using calculation(2,3) w by simp
  ultimately show ?thesis by blast
qed

lemma output_completes:
  assumes "0 < slots"
  shows "\<exists>as s'. output_run opts env resolver slots as s = Some s' \<and> walk s' = [] \<and> emitting s' = []"
proof (induction "2 * length (walk s) + length (emitting s)" arbitrary: s rule: less_induct)
  case less
  show ?case
  proof (cases "walk s = [] \<and> emitting s = []")
    case True
    then have "output_run opts env resolver slots [] s = Some s \<and> walk s = [] \<and> emitting s = []"
      by simp
    then show ?thesis by blast
  next
    case False
    from output_progress [OF False assms, of opts env resolver]
    obtain a s1 where step: "output_step opts env resolver slots a s = Some s1"
      and dec: "2 * length (walk s1) + length (emitting s1) < 2 * length (walk s) + length (emitting s)"
      by blast
    from less.hyps [OF dec] obtain as s' where
      "output_run opts env resolver slots as s1 = Some s'" "walk s' = []" "emitting s' = []"
      by blast
    then have "output_run opts env resolver slots (a # as) s = Some s' \<and> walk s' = [] \<and> emitting s' = []"
      using step by simp
    then show ?thesis by blast
  qed
qed

lemma writeOutput_completes:
  "\<exists>schedule r. writeOutput opts env schedule st = Some r"
proof -
  have "0 < pool_size (WildcardsThreads opts)" by (simp add: pool_size_def)
  then have run: "\<exists>as s'. output_run opts env resolver (pool_size (WildcardsThreads opts)) as
                     (output_init st (storeOrder env st)) = Some s' \<and> walk s' = [] \<and> emitting s' = []"
    for resolver
    by (rule output_completes)
  show ?thesis
  proof (cases "if OutputFile opts \<noteq> [] then createOutput env else None")
    case (Some e)
    then show ?thesis by (simp add: writeOutput_def)
  next
    case None
    show ?thesis
    proof (cases "trusted_resolver opts env")
      case (Inl e)
      then show ?thesis using None by (simp add: writeOutput_def)
    next
      case (Inr resolver)
      from run [of resolver] obtain as s' where
        "output_run opts env resolver (pool_size (WildcardsThreads opts)) as
           (output_init st (storeOrder env st)) = Some s'" "walk s' = []" "emitting s' = []"
        by blast
      then have "writeOutput opts env as st = Some (Inr (shared s'))"
        using None Inr by (simp add: writeOutput_def)
      then show ?thesis by blast
    qed
  qed
qed

end
